theory Spec2Isabelle
  imports Main
begin

section \<open>Strings of the server\<close>

text \<open>
  The server (\<^verbatim>\<open>server.js\<close>) handles JavaScript strings with two built-ins:
  \<^verbatim>\<open>String.prototype.trim\<close> and \<^verbatim>\<open>String.prototype.toLowerCase\<close>.
  A string is modelled as a \<^typ>\<open>string\<close> whose characters are the code units
  U+0000 .. U+00FF (Latin-1). On that range \<^verbatim>\<open>trim\<close> strips the white space
  and line terminators TAB, LF, VT, FF, CR, SPACE and NBSP from both ends, and
  \<^verbatim>\<open>toLowerCase\<close> maps each code unit on its own: A..Z and U+00C0 .. U+00DE
  (without the multiplication sign U+00D7) move up by 32, every other unit stays.
  The payloads of \<^verbatim>\<open>user-join\<close> and \<^verbatim>\<open>chat-message\<close> are strings, as the
  client sends them.
\<close>

type_synonym sid = string

definition isWhiteSpace :: "char \<Rightarrow> bool" where
  "isWhiteSpace c = ((of_char c :: nat) \<in> {9, 10, 11, 12, 13, 32, 160})"

definition trim :: "string \<Rightarrow> string" where
  "trim s = rev (dropWhile isWhiteSpace (rev (dropWhile isWhiteSpace s)))"

definition lowerChar :: "char \<Rightarrow> char" where
  "lowerChar c =
     (let n = (of_char c :: nat)
      in if (65 \<le> n \<and> n \<le> 90) \<or> (192 \<le> n \<and> n \<le> 222 \<and> n \<noteq> 215)
         then char_of (n + 32) else c)"

definition toLowerCase :: "string \<Rightarrow> string" where
  "toLowerCase s = map lowerChar s"

section \<open>The two global containers\<close>

text \<open>
  \<^verbatim>\<open>connectedUsers\<close> is a JavaScript \<^verbatim>\<open>Map\<close> from socket id to username and
  \<^verbatim>\<open>takenUsernames\<close> a JavaScript \<^verbatim>\<open>Set\<close> of usernames. Both iterate in
  insertion order, which \<^verbatim>\<open>Array.from(connectedUsers.values())\<close> exposes to the
  clients, so the map is an association list and the set a list.
  \<^verbatim>\<open>Map.prototype.set\<close> keeps the position of a key that is already present and
  appends a new key; \<^verbatim>\<open>Set.prototype.add\<close> appends a value that is not yet
  present.
\<close>

fun map_set :: "sid \<Rightarrow> string \<Rightarrow> (sid \<times> string) list \<Rightarrow> (sid \<times> string) list" where
  "map_set k v [] = [(k, v)]"
| "map_set k v (p # ps) = (if fst p = k then (k, v) # ps else p # map_set k v ps)"

definition map_get :: "(sid \<times> string) list \<Rightarrow> sid \<Rightarrow> string option" where
  "map_get m k = map_of m k"

definition map_delete :: "sid \<Rightarrow> (sid \<times> string) list \<Rightarrow> (sid \<times> string) list" where
  "map_delete k m = filter (\<lambda>p. fst p \<noteq> k) m"

definition map_values :: "(sid \<times> string) list \<Rightarrow> string list" where
  "map_values m = map snd m"

definition map_size :: "(sid \<times> string) list \<Rightarrow> nat" where
  "map_size m = length m"

definition set_add :: "string \<Rightarrow> string list \<Rightarrow> string list" where
  "set_add x s = (if x \<in> set s then s else s @ [x])"

definition set_delete :: "string \<Rightarrow> string list \<Rightarrow> string list" where
  "set_delete x s = removeAll x s"

text \<open>
  \<^verbatim>\<open>if (!username)\<close> on the result of \<^verbatim>\<open>connectedUsers.get(socket.id)\<close>: the
  value is falsy when the key is absent (\<^verbatim>\<open>undefined\<close>) and when the stored
  string is empty.
\<close>

fun truthy :: "string option \<Rightarrow> bool" where
  "truthy None = False"
| "truthy (Some s) = (s \<noteq> [])"

section \<open>Server state, events and emissions\<close>

record server =
  connectedUsers :: "(sid \<times> string) list"
  takenUsernames :: "string list"

definition initial :: server where
  "initial = \<lparr>connectedUsers = [], takenUsernames = []\<rparr>"

text \<open>
  The outbound events, named after their socket.io event names. The payload of
  \<^verbatim>\<open>user-joined\<close> and \<^verbatim>\<open>user-left\<close> is \<^verbatim>\<open>{username, userCount, users}\<close>,
  that of \<^verbatim>\<open>new-message\<close> is \<^verbatim>\<open>{id, username, message, timestamp}\<close>, in this
  order of arguments.
\<close>

datatype event =
    JoinError string
  | JoinSuccess string
  | UserJoined string nat "string list"
  | Error string
  | NewMessage string string string string
  | UserTyping string
  | UserStopTyping string
  | UserLeft string nat "string list"

text \<open>
  The three ways the handlers send: \<^verbatim>\<open>socket.emit\<close> (to this socket),
  \<^verbatim>\<open>io.emit\<close> (to all connected clients) and \<^verbatim>\<open>socket.broadcast.emit\<close>
  (to all connected clients except this socket).
\<close>

datatype emission =
    SocketEmit sid event
  | IoEmit event
  | SocketBroadcastEmit sid event

section \<open>The handlers\<close>

text \<open>
  Each handler takes the state and the id of the socket whose closure runs, and
  returns the new state with the emissions in the order they are issued.
  Writes to the console are left out.
\<close>

definition user_join :: "server \<Rightarrow> sid \<Rightarrow> string \<Rightarrow> server \<times> emission list" where
  "user_join st socket_id username =
     (let trimmedUsername = trim username in
      if trimmedUsername = []
      then (st, [SocketEmit socket_id (JoinError ''Username cannot be empty'')])
      else
        let lowerUsername = toLowerCase trimmedUsername;
            isTaken = list_ex (\<lambda>name. toLowerCase name = lowerUsername) (takenUsernames st)
        in if isTaken
           then (st, [SocketEmit socket_id
                   (JoinError ''Username is already taken. Please choose another.'')])
           else
             let cu = map_set socket_id trimmedUsername (connectedUsers st);
                 tu = set_add trimmedUsername (takenUsernames st)
             in (\<lparr>connectedUsers = cu, takenUsernames = tu\<rparr>,
                 [SocketEmit socket_id (JoinSuccess trimmedUsername),
                  IoEmit (UserJoined trimmedUsername (map_size cu) (map_values cu))]))"

text \<open>
  \<^verbatim>\<open>Date.now()\<close> rendered as a string and \<^verbatim>\<open>new Date().toISOString()\<close> are
  readings of the clock; the handler takes them as the arguments \<open>now\<close> and \<open>isoTime\<close>.
\<close>

definition chat_message ::
  "server \<Rightarrow> sid \<Rightarrow> string \<Rightarrow> string \<Rightarrow> string \<Rightarrow> server \<times> emission list" where
  "chat_message st socket_id message now isoTime =
     (let username = map_get (connectedUsers st) socket_id in
      if \<not> truthy username
      then (st, [SocketEmit socket_id (Error ''You must join the chat first'')])
      else
        let trimmedMessage = trim message in
        if trimmedMessage = [] then (st, [])
        else (st, [IoEmit (NewMessage (now @ ''-'' @ socket_id) (the username)
                             trimmedMessage isoTime)]))"

definition typing :: "server \<Rightarrow> sid \<Rightarrow> server \<times> emission list" where
  "typing st socket_id =
     (let username = map_get (connectedUsers st) socket_id in
      if truthy username
      then (st, [SocketBroadcastEmit socket_id (UserTyping (the username))])
      else (st, []))"

definition stop_typing :: "server \<Rightarrow> sid \<Rightarrow> server \<times> emission list" where
  "stop_typing st socket_id =
     (let username = map_get (connectedUsers st) socket_id in
      if truthy username
      then (st, [SocketBroadcastEmit socket_id (UserStopTyping (the username))])
      else (st, []))"

definition disconnect :: "server \<Rightarrow> sid \<Rightarrow> server \<times> emission list" where
  "disconnect st socket_id =
     (let username = map_get (connectedUsers st) socket_id in
      if truthy username
      then
        let cu = map_delete socket_id (connectedUsers st);
            tu = set_delete (the username) (takenUsernames st)
        in (\<lparr>connectedUsers = cu, takenUsernames = tu\<rparr>,
            [IoEmit (UserLeft (the username) (map_size cu) (map_values cu))])
      else (st, []))"

section \<open>Connections and delivery\<close>

text \<open>
  The handlers are registered inside \<^verbatim>\<open>io.on("connection", ...)\<close>, one closure
  per socket, so an inbound event reaches a handler only while its socket is
  connected, and the \<^verbatim>\<open>disconnect\<close> handler of a socket runs once, after the
  socket has left the set of connected clients. The world is that set, in order
  of connection, together with the server state. An input names the socket it
  comes from; \<open>ChatMessage\<close> carries the body and the two clock readings of
  its handler. \<open>deliver\<close> lists who receives an emission among the clients
  connected at that moment.
\<close>

type_synonym world = "sid list \<times> server"

datatype input =
    Connection sid
  | UserJoin sid string
  | ChatMessage sid string string string
  | Typing sid
  | StopTyping sid
  | Disconnect sid

fun deliver :: "sid list \<Rightarrow> emission \<Rightarrow> (sid \<times> event) list" where
  "deliver conns (SocketEmit s e) = (if s \<in> set conns then [(s, e)] else [])"
| "deliver conns (IoEmit e) = map (\<lambda>r. (r, e)) conns"
| "deliver conns (SocketBroadcastEmit s e) = map (\<lambda>r. (r, e)) (filter (\<lambda>r. r \<noteq> s) conns)"

definition deliver_all :: "sid list \<Rightarrow> emission list \<Rightarrow> (sid \<times> event) list" where
  "deliver_all conns out = concat (map (deliver conns) out)"

fun sender :: "input \<Rightarrow> sid" where
  "sender (Connection s) = s"
| "sender (UserJoin s n) = s"
| "sender (ChatMessage s m now isoTime) = s"
| "sender (Typing s) = s"
| "sender (StopTyping s) = s"
| "sender (Disconnect s) = s"

fun dispatch :: "server \<Rightarrow> input \<Rightarrow> server \<times> emission list" where
  "dispatch st (Connection s) = (st, [])"
| "dispatch st (UserJoin s n) = user_join st s n"
| "dispatch st (ChatMessage s m now isoTime) = chat_message st s m now isoTime"
| "dispatch st (Typing s) = typing st s"
| "dispatch st (StopTyping s) = stop_typing st s"
| "dispatch st (Disconnect s) = disconnect st s"

definition step :: "world \<Rightarrow> input \<Rightarrow> world \<times> (sid \<times> event) list" where
  "step w i =
     (let conns = fst w; st = snd w; s = sender i in
      case i of
        Connection _ \<Rightarrow>
          (if s \<in> set conns then (w, []) else ((conns @ [s], st), []))
      | Disconnect _ \<Rightarrow>
          (if s \<in> set conns
           then let conns' = removeAll s conns; r = dispatch st i
                in ((conns', fst r), deliver_all conns' (snd r))
           else (w, []))
      | _ \<Rightarrow>
          (if s \<in> set conns
           then let r = dispatch st i in ((conns, fst r), deliver_all conns (snd r))
           else (w, [])))"

definition start :: world where
  "start = ([], initial)"

fun run :: "world \<Rightarrow> input list \<Rightarrow> world" where
  "run w [] = w"
| "run w (i # rest) = run (fst (step w i)) rest"

text \<open>The invariant of the server state that every handler keeps.\<close>

definition names_ok :: "server \<Rightarrow> bool" where
  "names_ok st =
     (distinct (map fst (connectedUsers st)) \<and>
      distinct (map snd (connectedUsers st)) \<and>
      distinct (takenUsernames st) \<and>
      set (map snd (connectedUsers st)) \<subseteq> set (takenUsernames st) \<and>
      inj_on toLowerCase (set (takenUsernames st)) \<and>
      [] \<notin> set (takenUsernames st))"

definition world_ok :: "world \<Rightarrow> bool" where
  "world_ok w =
     (names_ok (snd w) \<and> distinct (fst w) \<and>
      set (map fst (connectedUsers (snd w))) \<subseteq> set (fst w))"

text \<open>
  A run in which every \<^verbatim>\<open>user-join\<close> comes from a socket that has no entry in
  \<^verbatim>\<open>connectedUsers\<close> at that moment.
\<close>

fun first_joins :: "world \<Rightarrow> input list \<Rightarrow> bool" where
  "first_joins w [] = True"
| "first_joins w (i # rest) =
     ((case i of UserJoin s n \<Rightarrow> map_get (connectedUsers (snd w)) s = None | _ \<Rightarrow> True) \<and>
      first_joins (fst (step w i)) rest)"

section \<open>Properties\<close>

subsection \<open>The containers\<close>

lemma map_set_keys: "set (map fst (map_set k v m)) = insert k (set (map fst m))"
  by (induction m) auto

lemma map_set_distinct_keys: "distinct (map fst m) \<Longrightarrow> distinct (map fst (map_set k v m))"
  by (induction m) (auto simp: map_set_keys [simplified])

lemma map_set_values: "set (map snd (map_set k v m)) \<subseteq> insert v (set (map snd m))"
  by (induction m) auto

lemma map_set_distinct_values:
  "distinct (map snd m) \<Longrightarrow> v \<notin> set (map snd m) \<Longrightarrow> distinct (map snd (map_set k v m))"
proof (induction m)
  case Nil
  then show ?case by simp
next
  case (Cons p ps)
  have sub: "set (map snd (map_set k v ps)) \<subseteq> insert v (set (map snd ps))"
    by (rule map_set_values)
  from Cons show ?case using sub by auto
qed

lemma map_of_map_set: "map_of (map_set k v m) = (map_of m)(k \<mapsto> v)"
  by (induction m) (auto simp: fun_eq_iff)

lemma map_of_map_delete: "map_of (map_delete k m) = (map_of m)(k := None)"
  by (induction m) (auto simp: map_delete_def fun_eq_iff)

lemma other_value_differs:
  assumes "distinct (map snd m)" "distinct (map fst m)" "map_of m k = Some u" "p \<in> set m" "fst p \<noteq> k"
  shows "snd p \<noteq> u"
proof
  assume eq: "snd p = u"
  from assms(3) have "(k, u) \<in> set m" by (rule map_of_SomeD)
  moreover from assms(1) have "inj_on snd (set m)" by (simp add: distinct_map)
  ultimately have "p = (k, u)" using assms(4) eq inj_onD [of snd "set m" p "(k, u)"] by simp
  with assms(5) show False by simp
qed

lemma user_join_names_ok: "names_ok st \<Longrightarrow> names_ok (fst (user_join st s n))"
proof -
  assume ok: "names_ok st"
  show ?thesis
  proof (cases "trim n = [] \<or> list_ex (\<lambda>name. toLowerCase name = toLowerCase (trim n)) (takenUsernames st)")
    case True
    then show ?thesis using ok by (auto simp: user_join_def Let_def)
  next
    case False
    then have ne: "trim n \<noteq> []"
      and fresh: "\<forall>x \<in> set (takenUsernames st). toLowerCase x \<noteq> toLowerCase (trim n)"
      by (auto simp: list_ex_iff)
    from fresh have notin: "trim n \<notin> set (takenUsernames st)" by auto
    with ok have notval: "trim n \<notin> set (map snd (connectedUsers st))"
      by (auto simp: names_ok_def)
    have st': "fst (user_join st s n) =
        \<lparr>connectedUsers = map_set s (trim n) (connectedUsers st),
         takenUsernames = takenUsernames st @ [trim n]\<rparr>"
      using False notin by (simp add: user_join_def Let_def set_add_def)
    have inj: "inj_on toLowerCase (insert (trim n) (set (takenUsernames st)))"
      using ok fresh by (auto simp: names_ok_def inj_on_def)
    have vals: "set (map snd (map_set s (trim n) (connectedUsers st)))
        \<subseteq> set (takenUsernames st @ [trim n])"
      using ok map_set_values [of s "trim n" "connectedUsers st"]
      by (auto simp: names_ok_def)
    have d1: "distinct (map fst (map_set s (trim n) (connectedUsers st)))"
      using ok by (simp add: names_ok_def map_set_distinct_keys)
    have d2: "distinct (map snd (map_set s (trim n) (connectedUsers st)))"
      using ok notval by (simp add: names_ok_def map_set_distinct_values)
    have d3: "distinct (takenUsernames st @ [trim n])"
      using ok notin by (simp add: names_ok_def)
    have e: "[] \<notin> set (takenUsernames st @ [trim n])"
      using ok ne by (auto simp: names_ok_def)
    show ?thesis
      unfolding st' names_ok_def using vals d1 d2 d3 e inj by simp
  qed
qed

lemma disconnect_names_ok: "names_ok st \<Longrightarrow> names_ok (fst (disconnect st s))"
proof -
  assume ok: "names_ok st"
  show ?thesis
  proof (cases "truthy (map_get (connectedUsers st) s)")
    case False
    then show ?thesis using ok by (simp add: disconnect_def Let_def)
  next
    case True
    then obtain u where u: "map_of (connectedUsers st) s = Some u"
      by (cases "map_get (connectedUsers st) s") (auto simp: map_get_def)
    have st': "fst (disconnect st s) =
        \<lparr>connectedUsers = map_delete s (connectedUsers st),
         takenUsernames = removeAll u (takenUsernames st)\<rparr>"
      using True u by (simp add: disconnect_def Let_def map_get_def set_delete_def)
    have rest: "\<forall>p \<in> set (map_delete s (connectedUsers st)). snd p \<noteq> u"
      using ok u other_value_differs [of "connectedUsers st" s u]
      by (auto simp: names_ok_def map_delete_def)
    have sub: "set (map_delete s (connectedUsers st)) \<subseteq> set (connectedUsers st)"
      by (auto simp: map_delete_def)
    have vals: "set (map snd (map_delete s (connectedUsers st)))
        \<subseteq> set (removeAll u (takenUsernames st))"
      using ok rest sub by (auto simp: names_ok_def)
    have d1: "distinct (map fst (map_delete s (connectedUsers st)))"
      using ok by (simp add: names_ok_def map_delete_def distinct_map_filter)
    have d2: "distinct (map snd (map_delete s (connectedUsers st)))"
      using ok by (simp add: names_ok_def map_delete_def distinct_map_filter)
    have d3: "distinct (removeAll u (takenUsernames st))"
      using ok by (simp add: names_ok_def distinct_removeAll)
    have e: "[] \<notin> set (removeAll u (takenUsernames st))"
      using ok by (simp add: names_ok_def)
    have inj: "inj_on toLowerCase (set (removeAll u (takenUsernames st)))"
      using ok by (auto simp: names_ok_def intro: inj_on_subset)
    show ?thesis
      unfolding st' names_ok_def using vals d1 d2 d3 e inj by simp
  qed
qed

subsection \<open>Reachable worlds\<close>

lemma dispatch_names_ok: "names_ok st \<Longrightarrow> names_ok (fst (dispatch st i))"
  by (cases i)
     (simp_all add: user_join_names_ok disconnect_names_ok chat_message_def typing_def
        stop_typing_def Let_def)

lemma user_join_keys:
  "set (map fst (connectedUsers (fst (user_join st s n))))
     \<subseteq> insert s (set (map fst (connectedUsers st)))"
  using map_set_keys [of s "trim n" "connectedUsers st"]
  by (auto simp: user_join_def Let_def)

lemma disconnect_keys:
  "set (map fst (connectedUsers (fst (disconnect st s))))
     \<subseteq> set (map fst (connectedUsers st))"
  by (auto simp: disconnect_def Let_def map_delete_def)

lemma disconnect_key_gone:
  "distinct (map snd (connectedUsers st)) \<Longrightarrow> [] \<notin> set (map snd (connectedUsers st)) \<Longrightarrow>
   s \<notin> set (map fst (connectedUsers (fst (disconnect st s))))"
proof (cases "map_get (connectedUsers st) s")
  case None
  then have "s \<notin> fst ` set (connectedUsers st)"
    by (simp add: map_get_def map_of_eq_None_iff)
  with None show ?thesis
    by (simp add: disconnect_def Let_def)
next
  case (Some u)
  assume "[] \<notin> set (map snd (connectedUsers st))"
  moreover from Some have "(s, u) \<in> set (connectedUsers st)"
    by (auto simp: map_get_def dest: map_of_SomeD)
  ultimately have "u \<noteq> []" by force
  with Some show ?thesis
    by (auto simp: disconnect_def Let_def map_delete_def)
qed

lemma dispatch_keys:
  "set (map fst (connectedUsers (fst (dispatch st i))))
     \<subseteq> insert (sender i) (set (map fst (connectedUsers st)))"
proof (cases i)
  case (UserJoin s n)
  then show ?thesis using user_join_keys [of st s n] by simp
next
  case (Disconnect s)
  then show ?thesis using disconnect_keys [of st s] by auto
qed (auto simp: chat_message_def typing_def stop_typing_def Let_def)

lemma step_world_ok: "world_ok w \<Longrightarrow> world_ok (fst (step w i))"
proof -
  assume ok: "world_ok w"
  obtain conns st where w: "w = (conns, st)" by (cases w)
  from ok w have nok: "names_ok st" and dc: "distinct conns"
    and sub: "set (map fst (connectedUsers st)) \<subseteq> set conns"
    by (simp_all add: world_ok_def)
  have nok': "names_ok (fst (dispatch st i))" using nok by (rule dispatch_names_ok)
  have keys': "set (map fst (connectedUsers (fst (dispatch st i))))
      \<subseteq> insert (sender i) (set (map fst (connectedUsers st)))"
    by (rule dispatch_keys)
  show ?thesis
  proof (cases "sender i \<in> set conns")
    case False
    then show ?thesis using ok w nok dc sub
      by (cases i) (auto simp: step_def Let_def world_ok_def)
  next
    case True
    show ?thesis
    proof (cases i)
      case (Disconnect s)
      have gone: "s \<notin> set (map fst (connectedUsers (fst (disconnect st s))))"
        using nok by (intro disconnect_key_gone) (simp_all add: names_ok_def, auto)
      have "set (map fst (connectedUsers (fst (disconnect st s)))) \<subseteq> set conns - {s}"
        using gone disconnect_keys [of st s] sub by auto
      then show ?thesis using True Disconnect w nok' dc
        by (simp add: step_def Let_def world_ok_def distinct_removeAll)
    next
      case (Connection s)
      then show ?thesis using True ok w by (simp add: step_def Let_def)
    qed (use True w nok' keys' dc sub in \<open>auto simp: step_def Let_def world_ok_def\<close>)
  qed
qed

lemma start_world_ok: "world_ok start"
  by (simp add: world_ok_def names_ok_def start_def initial_def)

lemma run_world_ok: "world_ok w \<Longrightarrow> world_ok (run w evs)"
  by (induction evs arbitrary: w) (simp_all add: step_world_ok)

lemma reachable_world_ok: "world_ok (run start evs)"
  by (rule run_world_ok [OF start_world_ok])

lemma run_append: "run w (xs @ ys) = run (run w xs) ys"
  by (induction xs arbitrary: w) simp_all

lemma registered_in_world:
  assumes "world_ok w" "map_get (connectedUsers (snd w)) s = Some u"
  shows "u \<noteq> [] \<and> s \<in> set (fst w) \<and> u \<in> set (takenUsernames (snd w))"
proof -
  from assms(2) have mem: "(s, u) \<in> set (connectedUsers (snd w))"
    by (auto simp: map_get_def dest: map_of_SomeD)
  then have "u \<in> set (map snd (connectedUsers (snd w)))"
    and "s \<in> set (map fst (connectedUsers (snd w)))"
    by force+
  with assms(1) show ?thesis
    by (auto simp: world_ok_def names_ok_def)
qed

section \<open>Joining\<close>

text \<open>
  C3. The \<^verbatim>\<open>user-join\<close> handler trims the requested name. When the trimmed name
  is empty it answers the socket with the join error for an empty name; when a name
  of \<^verbatim>\<open>takenUsernames\<close> has the same lower-case form it answers with the join
  error for a taken name. Otherwise it stores the trimmed name under the socket id in
  \<^verbatim>\<open>connectedUsers\<close> (the other entries stay), adds it to
  \<^verbatim>\<open>takenUsernames\<close>, and sends \<^verbatim>\<open>join-success\<close> with exactly the trimmed name
  to the socket, followed by the \<^verbatim>\<open>user-joined\<close> broadcast.
\<close>

theorem user_join_spec:
  "(trim n = [] \<longrightarrow>
      user_join st s n = (st, [SocketEmit s (JoinError ''Username cannot be empty'')])) \<and>
   (trim n \<noteq> [] \<and> (\<exists>x \<in> set (takenUsernames st). toLowerCase x = toLowerCase (trim n)) \<longrightarrow>
      user_join st s n =
        (st, [SocketEmit s (JoinError ''Username is already taken. Please choose another.'')])) \<and>
   (trim n \<noteq> [] \<and> (\<forall>x \<in> set (takenUsernames st). toLowerCase x \<noteq> toLowerCase (trim n)) \<longrightarrow>
      map_get (connectedUsers (fst (user_join st s n))) s = Some (trim n) \<and>
      (\<forall>k. k \<noteq> s \<longrightarrow>
         map_get (connectedUsers (fst (user_join st s n))) k = map_get (connectedUsers st) k) \<and>
      set (takenUsernames (fst (user_join st s n))) = insert (trim n) (set (takenUsernames st)) \<and>
      snd (user_join st s n) =
        [SocketEmit s (JoinSuccess (trim n)),
         IoEmit (UserJoined (trim n)
           (map_size (connectedUsers (fst (user_join st s n))))
           (map_values (connectedUsers (fst (user_join st s n)))))])"
  by (auto simp: user_join_def Let_def list_ex_iff map_get_def map_of_map_set set_add_def)

theorem user_join_spec_witness:
  "(trim ''   '' = [] \<and>
      user_join initial ''A'' ''   '' =
        (initial, [SocketEmit ''A'' (JoinError ''Username cannot be empty'')])) \<and>
   ((trim ''ALICE'' \<noteq> [] \<and>
      (\<exists>x \<in> set (takenUsernames \<lparr>connectedUsers = [(''A'', ''alice'')], takenUsernames = [''alice'']\<rparr>).
          toLowerCase x = toLowerCase (trim ''ALICE''))) \<and>
      user_join \<lparr>connectedUsers = [(''A'', ''alice'')], takenUsernames = [''alice'']\<rparr> ''B'' ''ALICE'' =
        (\<lparr>connectedUsers = [(''A'', ''alice'')], takenUsernames = [''alice'']\<rparr>,
         [SocketEmit ''B'' (JoinError ''Username is already taken. Please choose another.'')])) \<and>
   ((trim '' bob '' \<noteq> [] \<and>
      \<not> list_ex (\<lambda>name. toLowerCase name = toLowerCase (trim '' bob ''))
          (takenUsernames \<lparr>connectedUsers = [(''A'', ''alice'')], takenUsernames = [''alice'']\<rparr>)) \<and>
      map_get (connectedUsers
        (fst (user_join \<lparr>connectedUsers = [(''A'', ''alice'')], takenUsernames = [''alice'']\<rparr>
               ''B'' '' bob ''))) ''B'' = Some ''bob'' \<and>
      user_join \<lparr>connectedUsers = [(''A'', ''alice'')], takenUsernames = [''alice'']\<rparr> ''B'' '' bob '' =
        (\<lparr>connectedUsers = [(''A'', ''alice''), (''B'', ''bob'')], takenUsernames = [''alice'', ''bob'']\<rparr>,
         [SocketEmit ''B'' (JoinSuccess ''bob''), IoEmit (UserJoined ''bob'' 2 [''alice'', ''bob''])]))"
proof -
  let ?st = "\<lparr>connectedUsers = [(''A'', ''alice'')], takenUsernames = [''alice'']\<rparr>"
  have h1: "trim ''   '' = []" by code_simp
  have h2: "trim ''ALICE'' \<noteq> [] \<and>
      (\<exists>x \<in> set (takenUsernames ?st). toLowerCase x = toLowerCase (trim ''ALICE''))"
    by code_simp
  have h3: "trim '' bob '' \<noteq> [] \<and>
      (\<forall>x \<in> set (takenUsernames ?st). toLowerCase x \<noteq> toLowerCase (trim '' bob ''))"
    by code_simp
  have r3: "user_join ?st ''B'' '' bob '' =
        (\<lparr>connectedUsers = [(''A'', ''alice''), (''B'', ''bob'')], takenUsernames = [''alice'', ''bob'']\<rparr>,
         [SocketEmit ''B'' (JoinSuccess ''bob''), IoEmit (UserJoined ''bob'' 2 [''alice'', ''bob''])])"
    by code_simp
  from h1 user_join_spec [of "''   ''" initial "''A''"]
  have c1: "user_join initial ''A'' ''   '' =
        (initial, [SocketEmit ''A'' (JoinError ''Username cannot be empty'')])"
    by blast
  from h2 user_join_spec [of "''ALICE''" ?st "''B''"]
  have c2: "user_join ?st ''B'' ''ALICE'' =
        (?st, [SocketEmit ''B'' (JoinError ''Username is already taken. Please choose another.'')])"
    by blast
  have h3': "\<not> list_ex (\<lambda>name. toLowerCase name = toLowerCase (trim '' bob ''))
      (takenUsernames ?st)"
    using h3 by (simp add: list_ex_iff)
  have t3: "trim '' bob '' = ''bob''" by code_simp
  from h3 user_join_spec [of "'' bob ''" ?st "''B''"]
  have "map_get (connectedUsers (fst (user_join ?st ''B'' '' bob ''))) ''B'' = Some (trim '' bob '')"
    by blast
  then have c3: "map_get (connectedUsers (fst (user_join ?st ''B'' '' bob ''))) ''B'' = Some ''bob''"
    by (simp only: t3)
  from h1 h2 h3 h3' c1 c2 c3 r3 show ?thesis by blast
qed

text \<open>
  C4. A rejected join (the trimmed name is empty, or a taken name has the same
  lower-case form) leaves \<^verbatim>\<open>connectedUsers\<close> and \<^verbatim>\<open>takenUsernames\<close> as they
  were, and its only emission is one \<^verbatim>\<open>join-error\<close> sent with
  \<^verbatim>\<open>socket.emit\<close>: whatever the set of connected clients, nothing is delivered
  to a socket other than the requesting one.
\<close>

theorem user_join_rejected:
  assumes "trim n = [] \<or> (\<exists>x \<in> set (takenUsernames st). toLowerCase x = toLowerCase (trim n))"
  shows "fst (user_join st s n) = st \<and>
         (\<exists>reason. snd (user_join st s n) = [SocketEmit s (JoinError reason)]) \<and>
         (\<forall>conns r e. (r, e) \<in> set (deliver_all conns (snd (user_join st s n))) \<longrightarrow> r = s)"
  using assms
  by (auto simp: user_join_def Let_def list_ex_iff deliver_all_def split: if_splits)

theorem user_join_rejected_witness:
  "(trim ''ALICE'' = [] \<or>
      (\<exists>x \<in> set (takenUsernames \<lparr>connectedUsers = [(''A'', ''alice'')], takenUsernames = [''alice'']\<rparr>).
          toLowerCase x = toLowerCase (trim ''ALICE''))) \<and>
   fst (user_join \<lparr>connectedUsers = [(''A'', ''alice'')], takenUsernames = [''alice'']\<rparr> ''B'' ''ALICE'')
     = \<lparr>connectedUsers = [(''A'', ''alice'')], takenUsernames = [''alice'']\<rparr>"
proof -
  let ?st = "\<lparr>connectedUsers = [(''A'', ''alice'')], takenUsernames = [''alice'']\<rparr>"
  have h: "trim ''ALICE'' = [] \<or>
      (\<exists>x \<in> set (takenUsernames ?st). toLowerCase x = toLowerCase (trim ''ALICE''))"
    by code_simp
  from user_join_rejected [OF h, of "''B''"] h show ?thesis by blast
qed

section \<open>Messages and typing\<close>

text \<open>
  C5 (as amended). For a connected socket with no entry in \<^verbatim>\<open>connectedUsers\<close>:
  a \<^verbatim>\<open>chat-message\<close> is answered with the error ``You must join the chat first'',
  delivered to that socket alone, and changes nothing; a \<^verbatim>\<open>typing\<close> or
  \<^verbatim>\<open>stop-typing\<close> event is dropped without any emission, not even an error to
  the sender, and changes nothing. The socket stays connected in all three cases.
\<close>

theorem unauthenticated_events:
  assumes "s \<in> set conns" and "map_get (connectedUsers st) s = None"
  shows "step (conns, st) (ChatMessage s m now isoTime) =
           ((conns, st), [(s, Error ''You must join the chat first'')]) \<and>
         step (conns, st) (Typing s) = ((conns, st), []) \<and>
         step (conns, st) (StopTyping s) = ((conns, st), [])"
  using assms
  by (simp add: step_def Let_def chat_message_def typing_def stop_typing_def deliver_all_def)

theorem unauthenticated_events_witness:
  "(''C'' \<in> set [''A'', ''C''] \<and>
    map_get (connectedUsers \<lparr>connectedUsers = [(''A'', ''alice'')], takenUsernames = [''alice'']\<rparr>) ''C'' = None) \<and>
   step ([''A'', ''C''], \<lparr>connectedUsers = [(''A'', ''alice'')], takenUsernames = [''alice'']\<rparr>)
        (ChatMessage ''C'' ''hi'' ''1700000000000'' ''2023-11-14T22:13:20.000Z'') =
     (([''A'', ''C''], \<lparr>connectedUsers = [(''A'', ''alice'')], takenUsernames = [''alice'']\<rparr>),
      [(''C'', Error ''You must join the chat first'')]) \<and>
   step ([''A'', ''C''], \<lparr>connectedUsers = [(''A'', ''alice'')], takenUsernames = [''alice'']\<rparr>)
        (Typing ''C'') =
     (([''A'', ''C''], \<lparr>connectedUsers = [(''A'', ''alice'')], takenUsernames = [''alice'']\<rparr>), [])"
proof -
  let ?st = "\<lparr>connectedUsers = [(''A'', ''alice'')], takenUsernames = [''alice'']\<rparr>"
  have h1: "''C'' \<in> set [''A'', ''C'']" by simp
  have h2: "map_get (connectedUsers ?st) ''C'' = None" by (simp add: map_get_def)
  from unauthenticated_events [OF h1 h2] h1 h2 show ?thesis by blast
qed

text \<open>
  The claim as the specification words it fails for typing events: a socket that
  has connected and never joined sends \<^verbatim>\<open>typing\<close>, and nothing at all is
  delivered, so no error reaches it.
\<close>

theorem unauthenticated_typing_counterexample:
  "map_get (connectedUsers (snd (run start [Connection ''A'']))) ''A'' = None \<and>
   snd (step (run start [Connection ''A'']) (Typing ''A'')) = []"
  by code_simp

text \<open>
  C6. In a reachable world, a \<^verbatim>\<open>chat-message\<close> from a socket that has an entry
  in \<^verbatim>\<open>connectedUsers\<close>: when the body trims to the empty string, nothing is
  delivered to anyone (no error to the sender either) and the world is unchanged;
  otherwise one \<^verbatim>\<open>new-message\<close> carrying the sender's name and the trimmed body
  goes to every connected client, hence to every socket with an entry in
  \<^verbatim>\<open>connectedUsers\<close>, the sender included, and the world is unchanged.
\<close>

theorem chat_message_authenticated:
  assumes "w = run start evs" and "map_get (connectedUsers (snd w)) s = Some u"
  shows "(trim m = [] \<longrightarrow> step w (ChatMessage s m now isoTime) = (w, [])) \<and>
         (trim m \<noteq> [] \<longrightarrow>
            step w (ChatMessage s m now isoTime) =
              (w, map (\<lambda>r. (r, NewMessage (now @ ''-'' @ s) u (trim m) isoTime)) (fst w)) \<and>
            (\<forall>r. r \<in> set (map fst (connectedUsers (snd w))) \<longrightarrow>
               (r, NewMessage (now @ ''-'' @ s) u (trim m) isoTime)
                 \<in> set (snd (step w (ChatMessage s m now isoTime)))) \<and>
            (s, NewMessage (now @ ''-'' @ s) u (trim m) isoTime)
               \<in> set (snd (step w (ChatMessage s m now isoTime))))"
proof -
  have ok: "world_ok w" using assms(1) by (simp add: reachable_world_ok)
  from registered_in_world [OF ok assms(2)] have ne: "u \<noteq> []" and conn: "s \<in> set (fst w)"
    by simp_all
  have keys: "set (map fst (connectedUsers (snd w))) \<subseteq> set (fst w)"
    using ok by (simp add: world_ok_def)
  have empty: "trim m = [] \<Longrightarrow> step w (ChatMessage s m now isoTime) = (w, [])"
    using ne conn assms(2)
    by (simp add: step_def Let_def chat_message_def deliver_all_def)
  have full: "trim m \<noteq> [] \<Longrightarrow> step w (ChatMessage s m now isoTime) =
      (w, map (\<lambda>r. (r, NewMessage (now @ ''-'' @ s) u (trim m) isoTime)) (fst w))"
    using ne conn assms(2)
    by (simp add: step_def Let_def chat_message_def deliver_all_def)
  show ?thesis using empty full keys conn by auto
qed

theorem chat_message_authenticated_witness:
  "map_get (connectedUsers (snd (run start
       [Connection ''A'', Connection ''B'', UserJoin ''A'' ''alice'', UserJoin ''B'' ''bob'']))) ''A''
     = Some ''alice'' \<and>
   step (run start [Connection ''A'', Connection ''B'', UserJoin ''A'' ''alice'', UserJoin ''B'' ''bob''])
        (ChatMessage ''A'' '' hi '' ''1700000000000'' ''2023-11-14T22:13:20.000Z'') =
     (run start [Connection ''A'', Connection ''B'', UserJoin ''A'' ''alice'', UserJoin ''B'' ''bob''],
      [(''A'', NewMessage ''1700000000000-A'' ''alice'' ''hi'' ''2023-11-14T22:13:20.000Z''),
       (''B'', NewMessage ''1700000000000-A'' ''alice'' ''hi'' ''2023-11-14T22:13:20.000Z'')]) \<and>
   step (run start [Connection ''A'', Connection ''B'', UserJoin ''A'' ''alice'', UserJoin ''B'' ''bob''])
        (ChatMessage ''A'' ''   '' ''1700000000000'' ''2023-11-14T22:13:20.000Z'') =
     (run start [Connection ''A'', Connection ''B'', UserJoin ''A'' ''alice'', UserJoin ''B'' ''bob''], [])"
proof -
  let ?evs = "[Connection ''A'', Connection ''B'', UserJoin ''A'' ''alice'', UserJoin ''B'' ''bob'']"
  have h: "map_get (connectedUsers (snd (run start ?evs))) ''A'' = Some ''alice''"
    by code_simp
  have conns: "fst (run start ?evs) = [''A'', ''B'']" by code_simp
  have t1: "trim '' hi '' = ''hi''" and t2: "trim ''   '' = []" by code_simp+
  note spec = chat_message_authenticated [OF refl h]
  from spec [of "'' hi ''" "''1700000000000''" "''2023-11-14T22:13:20.000Z''"]
       spec [of "''   ''" "''1700000000000''" "''2023-11-14T22:13:20.000Z''"]
       h conns t1 t2
  show ?thesis by simp
qed

text \<open>
  C9. In a reachable world, a \<^verbatim>\<open>typing\<close> event from a socket with an entry in
  \<^verbatim>\<open>connectedUsers\<close> delivers \<^verbatim>\<open>user-typing\<close> with the sender's name to
  every connected client other than the sender, and a \<^verbatim>\<open>stop-typing\<close> event
  delivers \<^verbatim>\<open>user-stop-typing\<close> with the sender's name to the same clients;
  nothing is delivered to the sender, and the world is unchanged.
\<close>

theorem typing_broadcast:
  assumes "w = run start evs" and "map_get (connectedUsers (snd w)) s = Some u"
  shows "step w (Typing s) =
           (w, map (\<lambda>r. (r, UserTyping u)) (filter (\<lambda>r. r \<noteq> s) (fst w))) \<and>
         step w (StopTyping s) =
           (w, map (\<lambda>r. (r, UserStopTyping u)) (filter (\<lambda>r. r \<noteq> s) (fst w))) \<and>
         (\<forall>r. r \<in> set (fst w) \<and> r \<noteq> s \<longrightarrow>
            (r, UserTyping u) \<in> set (snd (step w (Typing s))) \<and>
            (r, UserStopTyping u) \<in> set (snd (step w (StopTyping s)))) \<and>
         (\<forall>e. (s, e) \<notin> set (snd (step w (Typing s))) \<and>
              (s, e) \<notin> set (snd (step w (StopTyping s))))"
proof -
  have ok: "world_ok w" using assms(1) by (simp add: reachable_world_ok)
  from registered_in_world [OF ok assms(2)] have ne: "u \<noteq> []" and conn: "s \<in> set (fst w)"
    by simp_all
  have ty: "step w (Typing s) =
      (w, map (\<lambda>r. (r, UserTyping u)) (filter (\<lambda>r. r \<noteq> s) (fst w)))"
    using ne conn assms(2) by (simp add: step_def Let_def typing_def deliver_all_def)
  have st: "step w (StopTyping s) =
      (w, map (\<lambda>r. (r, UserStopTyping u)) (filter (\<lambda>r. r \<noteq> s) (fst w)))"
    using ne conn assms(2) by (simp add: step_def Let_def stop_typing_def deliver_all_def)
  show ?thesis unfolding ty st by auto
qed

theorem typing_broadcast_witness:
  "map_get (connectedUsers (snd (run start
       [Connection ''A'', Connection ''B'', UserJoin ''A'' ''alice'', UserJoin ''B'' ''bob'']))) ''A''
     = Some ''alice'' \<and>
   snd (step (run start
       [Connection ''A'', Connection ''B'', UserJoin ''A'' ''alice'', UserJoin ''B'' ''bob''])
       (Typing ''A'')) = [(''B'', UserTyping ''alice'')] \<and>
   snd (step (run start
       [Connection ''A'', Connection ''B'', UserJoin ''A'' ''alice'', UserJoin ''B'' ''bob''])
       (StopTyping ''A'')) = [(''B'', UserStopTyping ''alice'')]"
proof -
  let ?evs = "[Connection ''A'', Connection ''B'', UserJoin ''A'' ''alice'', UserJoin ''B'' ''bob'']"
  have h: "map_get (connectedUsers (snd (run start ?evs))) ''A'' = Some ''alice''"
    by code_simp
  have conns: "fst (run start ?evs) = [''A'', ''B'']" by code_simp
  from typing_broadcast [OF refl h] h conns show ?thesis by simp
qed

section \<open>Leaving\<close>

text \<open>
  C7. The \<^verbatim>\<open>disconnect\<close> handler can be run again on the same socket id: the
  second run emits nothing and returns the state the first run left. On a socket
  id with no entry in \<^verbatim>\<open>connectedUsers\<close> it emits nothing and changes nothing.
  In a reachable state, on a socket id whose entry holds the name \<open>u\<close>, it emits
  one \<^verbatim>\<open>user-left\<close> that carries \<open>u\<close>. The handler is a total function: no
  branch of it raises.
\<close>

theorem disconnect_idempotent:
  "disconnect (fst (disconnect st s)) s = (fst (disconnect st s), []) \<and>
   (map_get (connectedUsers st) s = None \<longrightarrow> disconnect st s = (st, [])) \<and>
   (map_get (connectedUsers (snd (run start evs))) s = Some u \<longrightarrow>
      snd (disconnect (snd (run start evs)) s) =
        [IoEmit (UserLeft u
           (map_size (map_delete s (connectedUsers (snd (run start evs)))))
           (map_values (map_delete s (connectedUsers (snd (run start evs))))))])"
proof -
  have twice: "disconnect (fst (disconnect st s)) s = (fst (disconnect st s), [])"
  proof (cases "truthy (map_get (connectedUsers st) s)")
    case True
    have "map_of (map_delete s (connectedUsers st)) s = None"
      by (simp add: map_of_map_delete)
    with True show ?thesis by (simp add: disconnect_def Let_def map_get_def)
  next
    case False
    then show ?thesis by (simp add: disconnect_def Let_def)
  qed
  have never: "map_get (connectedUsers st) s = None \<Longrightarrow> disconnect st s = (st, [])"
    by (simp add: disconnect_def Let_def)
  have joined: "snd (disconnect (snd (run start evs)) s) =
        [IoEmit (UserLeft u
           (map_size (map_delete s (connectedUsers (snd (run start evs)))))
           (map_values (map_delete s (connectedUsers (snd (run start evs))))))]"
    if h: "map_get (connectedUsers (snd (run start evs))) s = Some u"
  proof -
    from registered_in_world [OF reachable_world_ok h] have "u \<noteq> []" by simp
    with h show ?thesis by (simp add: disconnect_def Let_def)
  qed
  from twice never joined show ?thesis by blast
qed

theorem disconnect_idempotent_witness:
  "map_get (connectedUsers initial) ''C'' = None \<and>
   disconnect initial ''C'' = (initial, []) \<and>
   map_get (connectedUsers (snd (run start
       [Connection ''A'', Connection ''B'', UserJoin ''A'' ''alice'', UserJoin ''B'' ''bob'']))) ''A''
     = Some ''alice'' \<and>
   snd (disconnect (snd (run start
       [Connection ''A'', Connection ''B'', UserJoin ''A'' ''alice'', UserJoin ''B'' ''bob''])) ''A'')
     = [IoEmit (UserLeft ''alice'' 1 [''bob''])]"
proof -
  let ?evs = "[Connection ''A'', Connection ''B'', UserJoin ''A'' ''alice'', UserJoin ''B'' ''bob'']"
  have h1: "map_get (connectedUsers initial) ''C'' = None" by code_simp
  have h2: "map_get (connectedUsers (snd (run start ?evs))) ''A'' = Some ''alice''"
    by code_simp
  have r: "map_size (map_delete ''A'' (connectedUsers (snd (run start ?evs)))) = 1"
    "map_values (map_delete ''A'' (connectedUsers (snd (run start ?evs)))) = [''bob'']"
    by code_simp+
  from disconnect_idempotent [where st = initial and s = "''C''"] h1
  have c1: "disconnect initial ''C'' = (initial, [])" by blast
  from disconnect_idempotent [where s = "''A''" and evs = ?evs and u = "''alice''"] h2
  have c2: "snd (disconnect (snd (run start ?evs)) ''A'') =
      [IoEmit (UserLeft ''alice''
         (map_size (map_delete ''A'' (connectedUsers (snd (run start ?evs)))))
         (map_values (map_delete ''A'' (connectedUsers (snd (run start ?evs))))))]"
    by blast
  from h1 h2 c1 c2 r show ?thesis by simp
qed

text \<open>
  C8. In a reachable world, when the transport of a socket whose entry in
  \<^verbatim>\<open>connectedUsers\<close> holds the name \<open>u\<close> disconnects: the entry is deleted, \<open>u\<close>
  is deleted from \<^verbatim>\<open>takenUsernames\<close>, and one \<^verbatim>\<open>user-left\<close> carrying \<open>u\<close>, the
  size of \<^verbatim>\<open>connectedUsers\<close> after the deletion and its values after the deletion
  is delivered to every client that is still connected, hence to every socket that
  still has an entry. When a connected socket with no entry disconnects, nothing
  is delivered and the server state is unchanged.
\<close>

theorem disconnect_broadcast:
  assumes "w = run start evs"
  shows "(map_get (connectedUsers (snd w)) s = Some u \<longrightarrow>
            step w (Disconnect s) =
              ((removeAll s (fst w),
                \<lparr>connectedUsers = map_delete s (connectedUsers (snd w)),
                 takenUsernames = set_delete u (takenUsernames (snd w))\<rparr>),
               map (\<lambda>r. (r, UserLeft u (map_size (map_delete s (connectedUsers (snd w))))
                                        (map_values (map_delete s (connectedUsers (snd w))))))
                   (removeAll s (fst w))) \<and>
            map_get (map_delete s (connectedUsers (snd w))) s = None \<and>
            u \<notin> set (set_delete u (takenUsernames (snd w))) \<and>
            (\<forall>r. r \<in> set (map fst (map_delete s (connectedUsers (snd w)))) \<longrightarrow>
               r \<in> set (removeAll s (fst w)))) \<and>
         (s \<in> set (fst w) \<and> map_get (connectedUsers (snd w)) s = None \<longrightarrow>
            step w (Disconnect s) = ((removeAll s (fst w), snd w), []))"
proof -
  have ok: "world_ok w" using assms by (simp add: reachable_world_ok)
  have keys: "set (map fst (connectedUsers (snd w))) \<subseteq> set (fst w)"
    using ok by (simp add: world_ok_def)
  have joined: "step w (Disconnect s) =
              ((removeAll s (fst w),
                \<lparr>connectedUsers = map_delete s (connectedUsers (snd w)),
                 takenUsernames = set_delete u (takenUsernames (snd w))\<rparr>),
               map (\<lambda>r. (r, UserLeft u (map_size (map_delete s (connectedUsers (snd w))))
                                        (map_values (map_delete s (connectedUsers (snd w))))))
                   (removeAll s (fst w)))"
    if h: "map_get (connectedUsers (snd w)) s = Some u"
  proof -
    from registered_in_world [OF ok h] have "u \<noteq> []" and "s \<in> set (fst w)" by simp_all
    with h show ?thesis
      by (simp add: step_def Let_def disconnect_def deliver_all_def)
  qed
  have gone: "map_get (map_delete s (connectedUsers (snd w))) s = None"
    by (simp add: map_get_def map_of_map_delete)
  have freed: "u \<notin> set (set_delete u (takenUsernames (snd w)))"
    by (simp add: set_delete_def)
  have rest: "r \<in> set (removeAll s (fst w))"
    if "r \<in> set (map fst (map_delete s (connectedUsers (snd w))))" for r
    using that keys by (auto simp: map_delete_def)
  have never: "step w (Disconnect s) = ((removeAll s (fst w), snd w), [])"
    if "s \<in> set (fst w)" "map_get (connectedUsers (snd w)) s = None"
    using that by (simp add: step_def Let_def disconnect_def deliver_all_def)
  from joined gone freed rest never show ?thesis by blast
qed

theorem disconnect_broadcast_witness:
  "map_get (connectedUsers (snd (run start
       [Connection ''A'', Connection ''B'', Connection ''C'',
        UserJoin ''A'' ''alice'', UserJoin ''B'' ''bob'']))) ''A'' = Some ''alice'' \<and>
   step (run start
       [Connection ''A'', Connection ''B'', Connection ''C'',
        UserJoin ''A'' ''alice'', UserJoin ''B'' ''bob'']) (Disconnect ''A'') =
     (([''B'', ''C''], \<lparr>connectedUsers = [(''B'', ''bob'')], takenUsernames = [''bob'']\<rparr>),
      [(''B'', UserLeft ''alice'' 1 [''bob'']), (''C'', UserLeft ''alice'' 1 [''bob''])]) \<and>
   (''C'' \<in> set (fst (run start
       [Connection ''A'', Connection ''B'', Connection ''C'',
        UserJoin ''A'' ''alice'', UserJoin ''B'' ''bob''])) \<and>
    map_get (connectedUsers (snd (run start
       [Connection ''A'', Connection ''B'', Connection ''C'',
        UserJoin ''A'' ''alice'', UserJoin ''B'' ''bob'']))) ''C'' = None) \<and>
   snd (step (run start
       [Connection ''A'', Connection ''B'', Connection ''C'',
        UserJoin ''A'' ''alice'', UserJoin ''B'' ''bob'']) (Disconnect ''C'')) = []"
proof -
  let ?evs = "[Connection ''A'', Connection ''B'', Connection ''C'',
        UserJoin ''A'' ''alice'', UserJoin ''B'' ''bob'']"
  have w: "run start ?evs =
      ([''A'', ''B'', ''C''],
       \<lparr>connectedUsers = [(''A'', ''alice''), (''B'', ''bob'')],
        takenUsernames = [''alice'', ''bob'']\<rparr>)"
    by code_simp
  have h1: "map_get (connectedUsers (snd (run start ?evs))) ''A'' = Some ''alice''"
    unfolding w by (simp add: map_get_def)
  have h2: "''C'' \<in> set (fst (run start ?evs)) \<and>
      map_get (connectedUsers (snd (run start ?evs))) ''C'' = None"
    unfolding w by (simp add: map_get_def)
  from disconnect_broadcast [OF refl, of ?evs "''A''" "''alice''"] h1
  have c1: "step (run start ?evs) (Disconnect ''A'') =
     (([''B'', ''C''], \<lparr>connectedUsers = [(''B'', ''bob'')], takenUsernames = [''bob'']\<rparr>),
      [(''B'', UserLeft ''alice'' 1 [''bob'']), (''C'', UserLeft ''alice'' 1 [''bob''])])"
    unfolding w by (simp add: map_delete_def set_delete_def map_size_def map_values_def)
  from disconnect_broadcast [OF refl, of ?evs "''C''"] h2
  have c2: "snd (step (run start ?evs) (Disconnect ''C'')) = []"
    by simp
  from h1 h2 c1 c2 show ?thesis by blast
qed

section \<open>Names across the run of the server\<close>

text \<open>
  C2. In every world reachable from the start, two different socket ids that both
  have an entry in \<^verbatim>\<open>connectedUsers\<close> hold names whose lower-case forms differ.
\<close>

theorem names_unique:
  assumes "s1 \<noteq> s2"
    and "map_get (connectedUsers (snd (run start evs))) s1 = Some n1"
    and "map_get (connectedUsers (snd (run start evs))) s2 = Some n2"
  shows "toLowerCase n1 \<noteq> toLowerCase n2"
proof
  assume low: "toLowerCase n1 = toLowerCase n2"
  let ?st = "snd (run start evs)"
  have ok: "names_ok ?st" using reachable_world_ok [of evs] by (simp add: world_ok_def)
  from assms(2,3) have m1: "(s1, n1) \<in> set (connectedUsers ?st)"
    and m2: "(s2, n2) \<in> set (connectedUsers ?st)"
    by (auto simp: map_get_def dest: map_of_SomeD)
  then have "n1 \<in> set (map snd (connectedUsers ?st))" "n2 \<in> set (map snd (connectedUsers ?st))"
    by force+
  with ok have "n1 \<in> set (takenUsernames ?st)" "n2 \<in> set (takenUsernames ?st)"
    by (auto simp: names_ok_def)
  moreover from ok have "inj_on toLowerCase (set (takenUsernames ?st))"
    by (simp add: names_ok_def)
  ultimately have same: "n1 = n2" using low by (auto dest: inj_onD)
  from ok have "inj_on snd (set (connectedUsers ?st))"
    by (simp add: names_ok_def distinct_map)
  with m1 m2 same have "(s1, n1) = (s2, n2)"
    using inj_onD [of snd "set (connectedUsers ?st)" "(s1, n1)" "(s2, n2)"] by simp
  with assms(1) show False by simp
qed

theorem names_unique_witness:
  "(''A'' \<noteq> ''B'' \<and>
    map_get (connectedUsers (snd (run start
       [Connection ''A'', Connection ''B'', UserJoin ''A'' ''alice'', UserJoin ''B'' ''Alice'',
        UserJoin ''B'' ''Bob'']))) ''A'' = Some ''alice'' \<and>
    map_get (connectedUsers (snd (run start
       [Connection ''A'', Connection ''B'', UserJoin ''A'' ''alice'', UserJoin ''B'' ''Alice'',
        UserJoin ''B'' ''Bob'']))) ''B'' = Some ''Bob'') \<and>
   toLowerCase ''alice'' \<noteq> toLowerCase ''Bob''"
proof -
  let ?evs = "[Connection ''A'', Connection ''B'', UserJoin ''A'' ''alice'', UserJoin ''B'' ''Alice'',
        UserJoin ''B'' ''Bob'']"
  have h0: "''A'' \<noteq> ''B''" by simp
  have h1: "map_get (connectedUsers (snd (run start ?evs))) ''A'' = Some ''alice''"
    by code_simp
  have h2: "map_get (connectedUsers (snd (run start ?evs))) ''B'' = Some ''Bob''"
    by code_simp
  from names_unique [OF h0 h1 h2] h0 h1 h2 show ?thesis by blast
qed

subsection \<open>The directory on runs without a second join\<close>

lemma map_set_absent: "k \<notin> set (map fst m) \<Longrightarrow> map_set k v m = m @ [(k, v)]"
  by (induction m) auto

lemma first_join_keeps_directory:
  assumes "set (takenUsernames st) = set (map snd (connectedUsers st))"
    and "map_get (connectedUsers st) c = None"
  shows "set (takenUsernames (fst (user_join st c n))) =
         set (map snd (connectedUsers (fst (user_join st c n))))"
proof -
  from assms(2) have "c \<notin> set (map fst (connectedUsers st))"
    by (simp add: map_get_def map_of_eq_None_iff)
  then have "map_set c (trim n) (connectedUsers st) = connectedUsers st @ [(c, trim n)]"
    by (rule map_set_absent)
  with assms(1) show ?thesis
    by (auto simp: user_join_def Let_def set_add_def)
qed

lemma disconnect_keeps_directory:
  assumes "names_ok st"
    and "set (takenUsernames st) = set (map snd (connectedUsers st))"
  shows "set (takenUsernames (fst (disconnect st c))) =
         set (map snd (connectedUsers (fst (disconnect st c))))"
proof (cases "truthy (map_get (connectedUsers st) c)")
  case False
  then show ?thesis using assms(2) by (simp add: disconnect_def Let_def)
next
  case True
  then obtain u where u: "map_of (connectedUsers st) c = Some u"
    by (cases "map_get (connectedUsers st) c") (auto simp: map_get_def)
  from assms(1) have dk: "distinct (map fst (connectedUsers st))"
    and dv: "distinct (map snd (connectedUsers st))"
    by (simp_all add: names_ok_def)
  have st': "fst (disconnect st c) =
      \<lparr>connectedUsers = map_delete c (connectedUsers st),
       takenUsernames = removeAll u (takenUsernames st)\<rparr>"
    using True u by (simp add: disconnect_def Let_def map_get_def set_delete_def)
  have "set (map snd (map_delete c (connectedUsers st))) = set (map snd (connectedUsers st)) - {u}"
  proof (intro set_eqI iffI)
    fix v assume "v \<in> set (map snd (map_delete c (connectedUsers st)))"
    then obtain p where p: "p \<in> set (connectedUsers st)" "fst p \<noteq> c" "v = snd p"
      by (auto simp: map_delete_def)
    with other_value_differs [OF dv dk u p(1,2)]
    show "v \<in> set (map snd (connectedUsers st)) - {u}" by auto
  next
    fix v assume "v \<in> set (map snd (connectedUsers st)) - {u}"
    then obtain k where k: "(k, v) \<in> set (connectedUsers st)" and "v \<noteq> u" by auto
    from dk k have "map_of (connectedUsers st) k = Some v" by simp
    with u \<open>v \<noteq> u\<close> have "k \<noteq> c" by auto
    with k show "v \<in> set (map snd (map_delete c (connectedUsers st)))"
      by (force simp: map_delete_def)
  qed
  with assms(2) show ?thesis unfolding st' by simp
qed

lemma directory_matches_registry_from:
  "world_ok w \<Longrightarrow> set (takenUsernames (snd w)) = set (map snd (connectedUsers (snd w))) \<Longrightarrow>
   first_joins w evs \<Longrightarrow>
   set (takenUsernames (snd (run w evs))) = set (map snd (connectedUsers (snd (run w evs))))"
proof (induction evs arbitrary: w)
  case Nil
  then show ?case by simp
next
  case (Cons i evs)
  have ok': "world_ok (fst (step w i))" using Cons.prems(1) by (rule step_world_ok)
  from Cons.prems(3) have fj: "first_joins (fst (step w i)) evs" by simp
  from Cons.prems(1) have nok: "names_ok (snd w)" by (simp add: world_ok_def)
  have eq': "set (takenUsernames (snd (fst (step w i)))) =
      set (map snd (connectedUsers (snd (fst (step w i)))))"
  proof (cases i)
    case (UserJoin c n)
    with Cons.prems(3) have "map_get (connectedUsers (snd w)) c = None" by simp
    from first_join_keeps_directory [OF Cons.prems(2) this, of n] UserJoin Cons.prems(2)
    show ?thesis by (simp add: step_def Let_def)
  next
    case (Disconnect c)
    from disconnect_keeps_directory [OF nok Cons.prems(2), of c] Disconnect Cons.prems(2)
    show ?thesis by (simp add: step_def Let_def)
  qed (use Cons.prems(2) in
        \<open>simp_all add: step_def Let_def chat_message_def typing_def stop_typing_def\<close>)
  from Cons.IH [OF ok' eq' fj] show ?case by simp
qed

lemma directory_matches_registry:
  "first_joins start evs \<Longrightarrow>
   set (takenUsernames (snd (run start evs))) =
     set (map_values (connectedUsers (snd (run start evs))))"
  using directory_matches_registry_from [OF start_world_ok, of evs]
  by (simp add: start_def initial_def map_values_def)

text \<open>
  C1. The directory and the registry come apart when a socket that has joined
  sends \<^verbatim>\<open>user-join\<close> again with another name: \<^verbatim>\<open>connectedUsers.set\<close> overwrites
  the socket's entry, \<^verbatim>\<open>takenUsernames.add\<close> adds the new name, and no statement
  deletes the old one. After socket A joins as alice and then as bob,
  \<^verbatim>\<open>takenUsernames\<close> holds alice and bob while the values of \<^verbatim>\<open>connectedUsers\<close>
  are bob alone. On runs where no socket joins a second time the two sets are
  equal (\<open>directory_matches_registry\<close>).
\<close>

theorem rejoin_breaks_directory:
  "takenUsernames (snd (run start
      [Connection ''A'', UserJoin ''A'' ''alice'', UserJoin ''A'' ''bob''])) = [''alice'', ''bob''] \<and>
   map_values (connectedUsers (snd (run start
      [Connection ''A'', UserJoin ''A'' ''alice'', UserJoin ''A'' ''bob'']))) = [''bob''] \<and>
   set (takenUsernames (snd (run start
      [Connection ''A'', UserJoin ''A'' ''alice'', UserJoin ''A'' ''bob''])))
     \<noteq> set (map_values (connectedUsers (snd (run start
      [Connection ''A'', UserJoin ''A'' ''alice'', UserJoin ''A'' ''bob'']))))"
proof -
  let ?evs = "[Connection ''A'', UserJoin ''A'' ''alice'', UserJoin ''A'' ''bob'']"
  have w: "run start ?evs =
      ([''A''], \<lparr>connectedUsers = [(''A'', ''bob'')], takenUsernames = [''alice'', ''bob'']\<rparr>)"
    by code_simp
  show ?thesis unfolding w by (auto simp: map_values_def)
qed

subsection \<open>A name that no entry holds any more\<close>

lemma map_set_entries:
  "distinct (map fst m) \<Longrightarrow> set (map_set k v m) = insert (k, v) {p \<in> set m. fst p \<noteq> k}"
  by (induction m) (auto simp: rev_image_eqI)

lemma toLowerCase_Nil_iff: "toLowerCase x = [] \<longleftrightarrow> x = []"
  by (simp add: toLowerCase_def)

lemma user_join_keeps_stale:
  assumes "old \<in> set (takenUsernames st)" and "old \<notin> set (map snd (connectedUsers st))"
  shows "old \<in> set (takenUsernames (fst (user_join st c n))) \<and>
         old \<notin> set (map snd (connectedUsers (fst (user_join st c n))))"
proof (cases "trim n = [] \<or> list_ex (\<lambda>name. toLowerCase name = toLowerCase (trim n)) (takenUsernames st)")
  case True
  then show ?thesis using assms by (auto simp: user_join_def Let_def)
next
  case False
  with assms(1) have diff: "trim n \<noteq> old" by (auto simp: list_ex_iff)
  have st': "fst (user_join st c n) =
      \<lparr>connectedUsers = map_set c (trim n) (connectedUsers st),
       takenUsernames = set_add (trim n) (takenUsernames st)\<rparr>"
    using False by (simp add: user_join_def Let_def)
  have "set (map snd (map_set c (trim n) (connectedUsers st)))
      \<subseteq> insert (trim n) (set (map snd (connectedUsers st)))"
    by (rule map_set_values)
  with assms diff show ?thesis unfolding st' by (auto simp: set_add_def)
qed

lemma disconnect_keeps_stale:
  assumes "old \<in> set (takenUsernames st)" and "old \<notin> set (map snd (connectedUsers st))"
  shows "old \<in> set (takenUsernames (fst (disconnect st c))) \<and>
         old \<notin> set (map snd (connectedUsers (fst (disconnect st c))))"
proof (cases "truthy (map_get (connectedUsers st) c)")
  case False
  then show ?thesis using assms by (simp add: disconnect_def Let_def)
next
  case True
  then obtain u where u: "map_of (connectedUsers st) c = Some u"
    by (cases "map_get (connectedUsers st) c") (auto simp: map_get_def)
  then have "(c, u) \<in> set (connectedUsers st)" by (rule map_of_SomeD)
  then have "u \<in> set (map snd (connectedUsers st))" by force
  with assms(2) have diff: "u \<noteq> old" by auto
  have st': "fst (disconnect st c) =
      \<lparr>connectedUsers = map_delete c (connectedUsers st),
       takenUsernames = removeAll u (takenUsernames st)\<rparr>"
    using True u by (simp add: disconnect_def Let_def map_get_def set_delete_def)
  show ?thesis unfolding st' using assms diff by (auto simp: map_delete_def)
qed

lemma step_keeps_stale:
  assumes "old \<in> set (takenUsernames (snd w))"
    and "old \<notin> set (map snd (connectedUsers (snd w)))"
  shows "old \<in> set (takenUsernames (snd (fst (step w i)))) \<and>
         old \<notin> set (map snd (connectedUsers (snd (fst (step w i)))))"
proof (cases i)
  case (UserJoin c n)
  then show ?thesis using user_join_keeps_stale [OF assms, of c n] assms
    by (simp add: step_def Let_def)
next
  case (Disconnect c)
  then show ?thesis using disconnect_keeps_stale [OF assms, of c] assms
    by (simp add: step_def Let_def)
qed (use assms in \<open>simp_all add: step_def Let_def chat_message_def typing_def stop_typing_def\<close>)

lemma run_keeps_stale:
  "old \<in> set (takenUsernames (snd w)) \<Longrightarrow> old \<notin> set (map snd (connectedUsers (snd w))) \<Longrightarrow>
   old \<in> set (takenUsernames (snd (run w evs))) \<and>
   old \<notin> set (map snd (connectedUsers (snd (run w evs))))"
proof (induction evs arbitrary: w)
  case Nil
  then show ?case by simp
next
  case (Cons i evs)
  from step_keeps_stale [OF Cons.prems, of i]
  have "old \<in> set (takenUsernames (snd (fst (step w i))))"
    and "old \<notin> set (map snd (connectedUsers (snd (fst (step w i)))))"
    by simp_all
  from Cons.IH [OF this] show ?case by simp
qed

lemma taken_name_rejected:
  assumes "old \<in> set (takenUsernames st)" and "old \<noteq> []"
    and "toLowerCase (trim n) = toLowerCase old"
  shows "user_join st c n =
     (st, [SocketEmit c (JoinError ''Username is already taken. Please choose another.'')])"
proof -
  from assms(2,3) have "trim n \<noteq> []"
    using toLowerCase_Nil_iff [of "trim n"] toLowerCase_Nil_iff [of old] by auto
  moreover from assms(1,3)
  have "list_ex (\<lambda>name. toLowerCase name = toLowerCase (trim n)) (takenUsernames st)"
    by (auto simp: list_ex_iff)
  ultimately show ?thesis by (simp add: user_join_def Let_def)
qed

lemma rejoin_makes_stale:
  assumes ok: "world_ok w" and old: "map_get (connectedUsers (snd w)) s = Some old"
    and ne: "trim new \<noteq> []"
    and free: "\<not> list_ex (\<lambda>name. toLowerCase name = toLowerCase (trim new)) (takenUsernames (snd w))"
  shows "fst (step w (UserJoin s new)) =
           (fst w, \<lparr>connectedUsers = map_set s (trim new) (connectedUsers (snd w)),
                    takenUsernames = takenUsernames (snd w) @ [trim new]\<rparr>)"
    and "old \<in> set (takenUsernames (snd (fst (step w (UserJoin s new)))))"
    and "old \<notin> set (map snd (connectedUsers (snd (fst (step w (UserJoin s new))))))"
proof -
  from registered_in_world [OF ok old]
  have conn: "s \<in> set (fst w)" and taken: "old \<in> set (takenUsernames (snd w))" by simp_all
  from free have notin: "trim new \<notin> set (takenUsernames (snd w))"
    by (auto simp: list_ex_iff)
  with taken have diff: "trim new \<noteq> old" by auto
  show st': "fst (step w (UserJoin s new)) =
           (fst w, \<lparr>connectedUsers = map_set s (trim new) (connectedUsers (snd w)),
                    takenUsernames = takenUsernames (snd w) @ [trim new]\<rparr>)"
    using conn ne free notin by (simp add: step_def Let_def user_join_def set_add_def)
  show "old \<in> set (takenUsernames (snd (fst (step w (UserJoin s new)))))"
    unfolding st' using taken by simp
  from ok have dk: "distinct (map fst (connectedUsers (snd w)))"
    and dv: "distinct (map snd (connectedUsers (snd w)))"
    by (simp_all add: world_ok_def names_ok_def)
  from old have mo: "map_of (connectedUsers (snd w)) s = Some old" by (simp add: map_get_def)
  have "snd p \<noteq> old" if "p \<in> set (map_set s (trim new) (connectedUsers (snd w)))" for p
  proof (cases "p = (s, trim new)")
    case True
    then show ?thesis using diff by simp
  next
    case False
    with that have "p \<in> set (connectedUsers (snd w))" and "fst p \<noteq> s"
      by (simp_all add: map_set_entries [OF dk])
    then show ?thesis using other_value_differs [OF dv dk mo] by simp
  qed
  then show "old \<notin> set (map snd (connectedUsers (snd (fst (step w (UserJoin s new))))))"
    unfolding st' by auto
qed

text \<open>
  C10. In a reachable world, let a socket that already holds the name \<open>old\<close> send
  \<^verbatim>\<open>user-join\<close> with a name that passes both checks. Its entry then holds the
  new trimmed name. Whatever events follow, the disconnect of that socket among
  them, \<open>old\<close> stays in \<^verbatim>\<open>takenUsernames\<close> while no entry of
  \<^verbatim>\<open>connectedUsers\<close> holds it, and every later \<^verbatim>\<open>user-join\<close> of a connected
  socket with a name that equals \<open>old\<close> up to case is answered with the join error
  for a taken name and changes nothing.
\<close>

theorem rejoin_old_name_never_freed:
  assumes "w = run start evs"
    and "map_get (connectedUsers (snd w)) s = Some old"
    and "trim new \<noteq> []"
    and "\<not> list_ex (\<lambda>name. toLowerCase name = toLowerCase (trim new)) (takenUsernames (snd w))"
    and "w' = fst (step w (UserJoin s new))"
  shows "map_get (connectedUsers (snd w')) s = Some (trim new) \<and>
         (\<forall>later.
            old \<in> set (takenUsernames (snd (run w' later))) \<and>
            old \<notin> set (map_values (connectedUsers (snd (run w' later)))) \<and>
            (\<forall>c n. c \<in> set (fst (run w' later)) \<and> toLowerCase (trim n) = toLowerCase old \<longrightarrow>
               step (run w' later) (UserJoin c n) =
                 (run w' later,
                  [(c, JoinError ''Username is already taken. Please choose another.'')])))"
proof -
  have ok: "world_ok w" using assms(1) by (simp add: reachable_world_ok)
  from registered_in_world [OF ok assms(2)] have old_ne: "old \<noteq> []" by simp
  note rj = rejoin_makes_stale [OF ok assms(2,3,4)]
  have entry: "map_get (connectedUsers (snd w')) s = Some (trim new)"
    unfolding assms(5) rj(1) by (simp add: map_get_def map_of_map_set)
  have stale: "old \<in> set (takenUsernames (snd w'))"
    "old \<notin> set (map snd (connectedUsers (snd w')))"
    unfolding assms(5) using rj(2,3) by simp_all
  have later: "old \<in> set (takenUsernames (snd (run w' later))) \<and>
      old \<notin> set (map_values (connectedUsers (snd (run w' later)))) \<and>
      (\<forall>c n. c \<in> set (fst (run w' later)) \<and> toLowerCase (trim n) = toLowerCase old \<longrightarrow>
         step (run w' later) (UserJoin c n) =
           (run w' later,
            [(c, JoinError ''Username is already taken. Please choose another.'')]))"
    for later
  proof -
    from run_keeps_stale [OF stale, of later]
    have t: "old \<in> set (takenUsernames (snd (run w' later)))"
      and v: "old \<notin> set (map snd (connectedUsers (snd (run w' later))))"
      by simp_all
    have "step (run w' later) (UserJoin c n) =
           (run w' later,
            [(c, JoinError ''Username is already taken. Please choose another.'')])"
      if "c \<in> set (fst (run w' later))" "toLowerCase (trim n) = toLowerCase old" for c n
      using that taken_name_rejected [OF t old_ne that(2), of c]
      by (simp add: step_def Let_def deliver_all_def)
    with t v show ?thesis by (simp add: map_values_def)
  qed
  from entry later show ?thesis by blast
qed

theorem rejoin_old_name_never_freed_witness:
  "(map_get (connectedUsers (snd (run start
        [Connection ''A'', Connection ''B'', UserJoin ''A'' ''alice'']))) ''A'' = Some ''alice'' \<and>
    trim ''bob'' \<noteq> [] \<and>
    \<not> list_ex (\<lambda>name. toLowerCase name = toLowerCase (trim ''bob''))
        (takenUsernames (snd (run start
           [Connection ''A'', Connection ''B'', UserJoin ''A'' ''alice''])))) \<and>
   (''B'' \<in> set (fst (run start
        [Connection ''A'', Connection ''B'', UserJoin ''A'' ''alice'', UserJoin ''A'' ''bob'',
         Disconnect ''A''])) \<and>
    toLowerCase (trim '' Alice'') = toLowerCase ''alice'') \<and>
   step (run start
        [Connection ''A'', Connection ''B'', UserJoin ''A'' ''alice'', UserJoin ''A'' ''bob'',
         Disconnect ''A'']) (UserJoin ''B'' '' Alice'') =
     (([''B''], \<lparr>connectedUsers = [], takenUsernames = [''alice'']\<rparr>),
      [(''B'', JoinError ''Username is already taken. Please choose another.'')])"
proof -
  let ?evs = "[Connection ''A'', Connection ''B'', UserJoin ''A'' ''alice'']"
  let ?w' = "fst (step (run start ?evs) (UserJoin ''A'' ''bob''))"
  have h2: "map_get (connectedUsers (snd (run start ?evs))) ''A'' = Some ''alice''"
    by code_simp
  have h3: "trim ''bob'' \<noteq> []" by code_simp
  have h4: "\<not> list_ex (\<lambda>name. toLowerCase name = toLowerCase (trim ''bob''))
        (takenUsernames (snd (run start ?evs)))"
    by code_simp
  have after: "run ?w' [Disconnect ''A''] =
      ([''B''], \<lparr>connectedUsers = [], takenUsernames = [''alice'']\<rparr>)"
    by code_simp
  have same: "run start (?evs @ [UserJoin ''A'' ''bob'', Disconnect ''A'']) =
      run ?w' [Disconnect ''A'']"
    by (simp only: run_append run.simps)
  have h5: "''B'' \<in> set (fst (run ?w' [Disconnect ''A''])) \<and>
      toLowerCase (trim '' Alice'') = toLowerCase ''alice''"
    unfolding after by code_simp
  from rejoin_old_name_never_freed [OF refl h2 h3 h4 refl]
  have "\<forall>c n. c \<in> set (fst (run ?w' [Disconnect ''A''])) \<and>
            toLowerCase (trim n) = toLowerCase ''alice'' \<longrightarrow>
          step (run ?w' [Disconnect ''A'']) (UserJoin c n) =
            (run ?w' [Disconnect ''A''],
             [(c, JoinError ''Username is already taken. Please choose another.'')])"
    by blast
  with h5 have "step (run ?w' [Disconnect ''A'']) (UserJoin ''B'' '' Alice'') =
      (run ?w' [Disconnect ''A''],
       [(''B'', JoinError ''Username is already taken. Please choose another.'')])"
    by blast
  with h2 h3 h4 h5 same after show ?thesis by simp
qed

end
